theory Spec2Isabelle
  imports Main
begin

section \<open>The RV64 PPAC build driver\<close>

text \<open>
  The source \<^verbatim>\<open>tvm/src/codegen/ppac/build_rv64_ppac.cc\<close> holds one function:
  \<^verbatim>\<open>
  std::string BuildRV64PPAC(Array<LoweredFunc> funcs) {
    CodeAnalysis ca;
    CodeGenRV64PPAC cg;
    for (LoweredFunc f : funcs) {
      ca.AddFunction(f);
      str2tupleMap<std::string, Type> map_arg_type;
      map_arg_type = ca.Finish();
      cg.AddFunction(f, map_arg_type);
    }
    std::string code = cg.Finish();

    LOG(WARNING) << "RV64_PPAC backend doesn't have runtime, return kernel code";
    return code;
  }
  \<close>
  The classes \<^verbatim>\<open>CodeAnalysis\<close> and \<^verbatim>\<open>CodeGenRV64PPAC\<close> are declared in headers that the
  driver includes; the driver only calls their default constructors and the member
  functions \<^verbatim>\<open>AddFunction\<close> and \<^verbatim>\<open>Finish\<close>. The embedding therefore takes the two
  classes as a parameter: a record of operations on an instance state. Every member
  function takes the instance and gives either a failure (the C++ exception that unwinds
  the call) or its result together with the instance as the call left it. The types are
  parameters as well: \<open>'f\<close> for \<^verbatim>\<open>LoweredFunc\<close>, \<open>'m\<close> for the argument type map
  \<^verbatim>\<open>str2tupleMap<std::string, Type>\<close>, \<open>'ca\<close> and \<open>'cg\<close> for the states of the two
  instances, \<open>'e\<close> for what is thrown.
\<close>

subsection \<open>The collaborators\<close>

record ('f, 'm, 'ca, 'cg, 'e) collaborators =
  CodeAnalysis_new :: 'ca
  CodeAnalysis_AddFunction :: "'f \<Rightarrow> 'ca \<Rightarrow> 'e + 'ca"
  CodeAnalysis_Finish :: "'ca \<Rightarrow> 'e + 'm \<times> 'ca"
  CodeGen_new :: 'cg
  CodeGen_AddFunction :: "'f \<Rightarrow> 'm \<Rightarrow> 'cg \<Rightarrow> 'e + 'cg"
  CodeGen_Finish :: "'cg \<Rightarrow> 'e + string \<times> 'cg"

subsection \<open>What an invocation does, as a trace\<close>

text \<open>
  Each call to a collaborator and each message written to the log is an event. An event
  is recorded when the call is made, so a call that throws is the last event of its
  invocation. The trace is the one piece of state that outlives an invocation: the driver
  receives the events so far and returns them extended.
\<close>

datatype ('f, 'm) event =
    CA_AddFunction 'f
  | CA_Finish
  | CG_AddFunction 'f 'm
  | CG_Finish
  | LOG_WARNING string

definition advisory :: string where
  "advisory = ''RV64_PPAC backend doesn't have runtime, return kernel code''"

subsection \<open>The driver\<close>

text \<open>
  The body of the range-based \<^verbatim>\<open>for\<close>, once per element and in the order of the array.
  \<open>ca\<close> and \<open>cg\<close> are the two local instances.
\<close>

fun for_funcs ::
  "('f, 'm, 'ca, 'cg, 'e) collaborators \<Rightarrow> 'f list \<Rightarrow> 'ca \<Rightarrow> 'cg \<Rightarrow> ('f, 'm) event list
    \<Rightarrow> ('e + 'ca \<times> 'cg) \<times> ('f, 'm) event list" where
  "for_funcs K [] ca cg w = (Inr (ca, cg), w)"
| "for_funcs K (f # funcs) ca cg w =
    (case CodeAnalysis_AddFunction K f ca of
       Inl e \<Rightarrow> (Inl e, w @ [CA_AddFunction f])
     | Inr ca1 \<Rightarrow>
        (case CodeAnalysis_Finish K ca1 of
           Inl e \<Rightarrow> (Inl e, w @ [CA_AddFunction f, CA_Finish])
         | Inr (map_arg_type, ca2) \<Rightarrow>
            (case CodeGen_AddFunction K f map_arg_type cg of
               Inl e \<Rightarrow>
                 (Inl e, w @ [CA_AddFunction f, CA_Finish, CG_AddFunction f map_arg_type])
             | Inr cg1 \<Rightarrow>
                 for_funcs K funcs ca2 cg1
                   (w @ [CA_AddFunction f, CA_Finish, CG_AddFunction f map_arg_type]))))"

definition BuildRV64PPAC ::
  "('f, 'm, 'ca, 'cg, 'e) collaborators \<Rightarrow> 'f list \<Rightarrow> ('f, 'm) event list
    \<Rightarrow> ('e + string) \<times> ('f, 'm) event list" where
  "BuildRV64PPAC K funcs w =
    (case for_funcs K funcs (CodeAnalysis_new K) (CodeGen_new K) w of
       (Inl e, w1) \<Rightarrow> (Inl e, w1)
     | (Inr (ca, cg), w1) \<Rightarrow>
        (case CodeGen_Finish K cg of
           Inl e \<Rightarrow> (Inl e, w1 @ [CG_Finish])
         | Inr (code, cg') \<Rightarrow> (Inr code, w1 @ [CG_Finish, LOG_WARNING advisory])))"

text \<open>The events of one invocation: what it added to the trace it was given.\<close>

definition emitted ::
  "('f, 'm, 'ca, 'cg, 'e) collaborators \<Rightarrow> 'f list \<Rightarrow> ('f, 'm) event list
    \<Rightarrow> ('f, 'm) event list" where
  "emitted K funcs w = drop (length w) (snd (BuildRV64PPAC K funcs w))"

text \<open>The calls among the events, the log left out.\<close>

fun is_call :: "('f, 'm) event \<Rightarrow> bool" where
  "is_call (LOG_WARNING s) = False"
| "is_call _ = True"

subsection \<open>Reading a trace\<close>

text \<open>The arguments of the generator's \<^verbatim>\<open>AddFunction\<close> calls, in the order of the calls.\<close>

fun cg_calls :: "('f, 'm) event list \<Rightarrow> ('f \<times> 'm) list" where
  "cg_calls [] = []"
| "cg_calls (CG_AddFunction f m # evs) = (f, m) # cg_calls evs"
| "cg_calls (_ # evs) = cg_calls evs"

text \<open>An event without the map it carries: which call it is and on which function.\<close>

definition shape :: "('f, 'm) event \<Rightarrow> ('f, unit) event" where
  "shape ev = map_event id (\<lambda>m. ()) ev"

text \<open>The three calls of one turn of the loop on \<open>f\<close>, as shapes.\<close>

definition turn :: "'f \<Rightarrow> ('f, unit) event list" where
  "turn f = [CA_AddFunction f, CA_Finish, CG_AddFunction f ()]"

text \<open>
  A trace read as a list of calls and made for real: every call event is applied to the
  instances, starting from \<open>ca\<close> and \<open>cg\<close>, in the order of the trace, and each
  instance is threaded from one call on it to the next. The first call that raises ends
  the replay with its failure. If none does, the replay gives the maps that the
  analyzer's \<^verbatim>\<open>Finish\<close> calls returned (added to \<open>maps\<close>) and the texts that the
  generator's \<^verbatim>\<open>Finish\<close> calls returned (added to \<open>texts\<close>). A log line is no call.
\<close>

fun replay ::
  "('f, 'm, 'ca, 'cg, 'e) collaborators \<Rightarrow> ('f, 'm) event list \<Rightarrow> 'ca \<Rightarrow> 'cg
    \<Rightarrow> 'm list \<Rightarrow> string list \<Rightarrow> 'e + 'm list \<times> string list" where
  "replay K [] ca cg maps texts = Inr (maps, texts)"
| "replay K (CA_AddFunction f # evs) ca cg maps texts =
    (case CodeAnalysis_AddFunction K f ca of
       Inl e \<Rightarrow> Inl e
     | Inr ca1 \<Rightarrow> replay K evs ca1 cg maps texts)"
| "replay K (CA_Finish # evs) ca cg maps texts =
    (case CodeAnalysis_Finish K ca of
       Inl e \<Rightarrow> Inl e
     | Inr (m, ca2) \<Rightarrow> replay K evs ca2 cg (maps @ [m]) texts)"
| "replay K (CG_AddFunction f m # evs) ca cg maps texts =
    (case CodeGen_AddFunction K f m cg of
       Inl e \<Rightarrow> Inl e
     | Inr cg1 \<Rightarrow> replay K evs ca cg1 maps texts)"
| "replay K (CG_Finish # evs) ca cg maps texts =
    (case CodeGen_Finish K cg of
       Inl e \<Rightarrow> Inl e
     | Inr (code, cg') \<Rightarrow> replay K evs ca cg' maps (texts @ [code]))"
| "replay K (LOG_WARNING s # evs) ca cg maps texts = replay K evs ca cg maps texts"

text \<open>The replay on instances as their constructors leave them.\<close>

definition performed ::
  "('f, 'm, 'ca, 'cg, 'e) collaborators \<Rightarrow> ('f, 'm) event list
    \<Rightarrow> 'e + 'm list \<times> string list" where
  "performed K evs = replay K evs (CodeAnalysis_new K) (CodeGen_new K) [] []"

subsection \<open>The collaborators on their own\<close>

text \<open>
  The analyzer alone, given the functions of \<open>funcs\<close> one after the other, each
  registered with \<^verbatim>\<open>AddFunction\<close> and followed by \<^verbatim>\<open>Finish\<close>: the map that the last
  \<^verbatim>\<open>Finish\<close> returns. This is the snapshot taken right after the last function of
  \<open>funcs\<close> was registered; it is a function of \<open>funcs\<close> and of the analyzer's
  state before them, and of nothing else. There is none when \<open>funcs\<close> is empty or a
  call throws.
\<close>

fun snapshot_from ::
  "('f, 'm, 'ca, 'cg, 'e) collaborators \<Rightarrow> 'f list \<Rightarrow> 'ca \<Rightarrow> 'm option" where
  "snapshot_from K [] ca = None"
| "snapshot_from K (f # funcs) ca =
    (case CodeAnalysis_AddFunction K f ca of
       Inl e \<Rightarrow> None
     | Inr ca1 \<Rightarrow>
        (case CodeAnalysis_Finish K ca1 of
           Inl e \<Rightarrow> None
         | Inr (m, ca2) \<Rightarrow> if funcs = [] then Some m else snapshot_from K funcs ca2))"

definition snapshot :: "('f, 'm, 'ca, 'cg, 'e) collaborators \<Rightarrow> 'f list \<Rightarrow> 'm option" where
  "snapshot K funcs = snapshot_from K funcs (CodeAnalysis_new K)"

text \<open>
  The generator alone, given a list of \<^verbatim>\<open>AddFunction\<close> calls and then \<^verbatim>\<open>Finish\<close>: the
  text that \<^verbatim>\<open>Finish\<close> returns, if no call throws.
\<close>

fun finished_from ::
  "('f, 'm, 'ca, 'cg, 'e) collaborators \<Rightarrow> ('f \<times> 'm) list \<Rightarrow> 'cg \<Rightarrow> string option" where
  "finished_from K [] cg =
    (case CodeGen_Finish K cg of Inl e \<Rightarrow> None | Inr (code, cg') \<Rightarrow> Some code)"
| "finished_from K ((f, m) # calls) cg =
    (case CodeGen_AddFunction K f m cg of
       Inl e \<Rightarrow> None
     | Inr cg1 \<Rightarrow> finished_from K calls cg1)"

definition finished :: "('f, 'm, 'ca, 'cg, 'e) collaborators \<Rightarrow> ('f \<times> 'm) list \<Rightarrow> string option" where
  "finished K calls = finished_from K calls (CodeGen_new K)"

section \<open>The collaborators as the specification describes them\<close>

text \<open>
  Modelled from the spec: the failures that the classes \<^verbatim>\<open>CodeAnalysis\<close> and
  \<^verbatim>\<open>CodeGenRV64PPAC\<close> raise. Their sources are not at hand; the specification names two
  kinds, an inconsistent argument type (the analyzer) and an unsupported construct (the
  generator).
\<close>

datatype failure = InconsistentArgumentType | UnsupportedConstruct

text \<open>
  Modelled from the spec: the class \<^verbatim>\<open>CodeGenRV64PPAC\<close>, which is missing. Its state is
  the text accumulated since its creation, empty at first. \<^verbatim>\<open>AddFunction\<close> translates
  the function with the map it is given and appends the text to the buffer, or raises
  the translation's failure; \<^verbatim>\<open>Finish\<close> returns the buffer. How a function is
  translated is the parameter \<open>translate\<close>.
\<close>

definition spec_CodeGen_new :: string where
  "spec_CodeGen_new = []"

definition spec_CodeGen_AddFunction ::
  "('f \<Rightarrow> 'm \<Rightarrow> 'e + string) \<Rightarrow> 'f \<Rightarrow> 'm \<Rightarrow> string \<Rightarrow> 'e + string" where
  "spec_CodeGen_AddFunction translate f m buf =
    (case translate f m of Inl e \<Rightarrow> Inl e | Inr text \<Rightarrow> Inr (buf @ text))"

definition spec_CodeGen_Finish :: "string \<Rightarrow> 'e + string \<times> string" where
  "spec_CodeGen_Finish buf = Inr (buf, buf)"

definition with_spec_CodeGen ::
  "('f \<Rightarrow> 'm \<Rightarrow> 'e + string) \<Rightarrow> ('f, 'm, 'ca, 'cg, 'e) collaborators
    \<Rightarrow> ('f, 'm, 'ca, string, 'e) collaborators" where
  "with_spec_CodeGen translate K =
    \<lparr>CodeAnalysis_new = CodeAnalysis_new K,
     CodeAnalysis_AddFunction = CodeAnalysis_AddFunction K,
     CodeAnalysis_Finish = CodeAnalysis_Finish K,
     CodeGen_new = spec_CodeGen_new,
     CodeGen_AddFunction = spec_CodeGen_AddFunction translate,
     CodeGen_Finish = spec_CodeGen_Finish\<rparr>"

text \<open>The text that one \<^verbatim>\<open>AddFunction\<close> call appends (none when the translation fails).\<close>

definition text_of :: "('f \<Rightarrow> 'm \<Rightarrow> 'e + string) \<Rightarrow> 'f \<times> 'm \<Rightarrow> string" where
  "text_of translate call =
    (case translate (fst call) (snd call) of Inl e \<Rightarrow> [] | Inr text \<Rightarrow> text)"

text \<open>
  Modelled from the spec: the class \<^verbatim>\<open>CodeAnalysis\<close>, which is missing. Its state is the
  argument type map, from the identity of an argument to its type, empty at first.
  \<^verbatim>\<open>AddFunction\<close> records every argument that the function references, in order: an
  identity not seen before gets an entry, one seen before with a compatible type is
  overwritten, one seen before with an incompatible type raises the failure. \<^verbatim>\<open>Finish\<close>
  returns the map as it stands. Which arguments a function references (\<open>arg_types\<close>)
  and which types are compatible are parameters.
\<close>

fun spec_register ::
  "('ty \<Rightarrow> 'ty \<Rightarrow> bool) \<Rightarrow> (string \<times> 'ty) list \<Rightarrow> (string \<rightharpoonup> 'ty)
    \<Rightarrow> failure + (string \<rightharpoonup> 'ty)" where
  "spec_register compatible [] m = Inr m"
| "spec_register compatible ((a, t) # rest) m =
    (case m a of
       None \<Rightarrow> spec_register compatible rest (m(a \<mapsto> t))
     | Some t' \<Rightarrow>
        if compatible t' t then spec_register compatible rest (m(a \<mapsto> t))
        else Inl InconsistentArgumentType)"

definition spec_CodeAnalysis_new :: "string \<rightharpoonup> 'ty" where
  "spec_CodeAnalysis_new = Map.empty"

definition spec_CodeAnalysis_AddFunction ::
  "('f \<Rightarrow> (string \<times> 'ty) list) \<Rightarrow> ('ty \<Rightarrow> 'ty \<Rightarrow> bool) \<Rightarrow> 'f \<Rightarrow> (string \<rightharpoonup> 'ty)
    \<Rightarrow> failure + (string \<rightharpoonup> 'ty)" where
  "spec_CodeAnalysis_AddFunction arg_types compatible f m =
    spec_register compatible (arg_types f) m"

definition spec_CodeAnalysis_Finish ::
  "(string \<rightharpoonup> 'ty) \<Rightarrow> failure + (string \<rightharpoonup> 'ty) \<times> (string \<rightharpoonup> 'ty)" where
  "spec_CodeAnalysis_Finish m = Inr (m, m)"

definition spec_collaborators ::
  "('f \<Rightarrow> (string \<times> 'ty) list) \<Rightarrow> ('ty \<Rightarrow> 'ty \<Rightarrow> bool)
    \<Rightarrow> ('f \<Rightarrow> (string \<rightharpoonup> 'ty) \<Rightarrow> failure + string)
    \<Rightarrow> ('f, string \<rightharpoonup> 'ty, string \<rightharpoonup> 'ty, string, failure) collaborators" where
  "spec_collaborators arg_types compatible translate =
    \<lparr>CodeAnalysis_new = spec_CodeAnalysis_new,
     CodeAnalysis_AddFunction = spec_CodeAnalysis_AddFunction arg_types compatible,
     CodeAnalysis_Finish = spec_CodeAnalysis_Finish,
     CodeGen_new = spec_CodeGen_new,
     CodeGen_AddFunction = spec_CodeGen_AddFunction translate,
     CodeGen_Finish = spec_CodeGen_Finish\<rparr>"

subsection \<open>A small instance\<close>

text \<open>
  Modelled from the spec: a small instance of the Lowered Function IR and of the two
  parameters above, to run the driver on concrete functions (the type \<^verbatim>\<open>LoweredFunc\<close>
  and the translation are missing with the two classes). A function is the list of the
  arguments it references, each with its type, and the text of its translation, if it
  has one: a function with a construct that the target language cannot express has
  none. Two types are compatible when they are equal.
\<close>

datatype arg_type = Int32 | Float32

type_synonym kernel = "(string \<times> arg_type) list \<times> string option"

definition kernel_translate :: "kernel \<Rightarrow> (string \<rightharpoonup> arg_type) \<Rightarrow> failure + string" where
  "kernel_translate f m =
    (case snd f of None \<Rightarrow> Inl UnsupportedConstruct | Some text \<Rightarrow> Inr text)"

definition kernel_K ::
  "(kernel, string \<rightharpoonup> arg_type, string \<rightharpoonup> arg_type, string, failure) collaborators" where
  "kernel_K = spec_collaborators fst (=) kernel_translate"

definition k_plain :: kernel where
  "k_plain = ([], Some ''p;'')"

definition k_opaque :: kernel where
  "k_opaque = ([], None)"

definition k_int :: kernel where
  "k_int = ([(''A'', Int32)], Some ''i;'')"

definition k_int2 :: kernel where
  "k_int2 = ([(''A'', Int32)], Some ''j;'')"

definition k_float :: kernel where
  "k_float = ([(''A'', Float32)], Some ''f;'')"

text \<open>
  Modelled from the spec: a second instance, whose generator reads the map it is given.
  It resolves the type of every argument of its function in the map (spec 4.3) and has
  a translation only when each argument is there with the type the function uses.
\<close>

definition typed_translate :: "kernel \<Rightarrow> (string \<rightharpoonup> arg_type) \<Rightarrow> failure + string" where
  "typed_translate f m =
    (if list_all (\<lambda>(a, t). m a = Some t) (fst f) then kernel_translate f m
     else Inl UnsupportedConstruct)"

definition typed_K ::
  "(kernel, string \<rightharpoonup> arg_type, string \<rightharpoonup> arg_type, string, failure) collaborators" where
  "typed_K = spec_collaborators fst (=) typed_translate"

section \<open>Facts about the loop and the driver\<close>

lemma for_funcs_history:
  "for_funcs K funcs ca cg w =
     (fst (for_funcs K funcs ca cg []), w @ snd (for_funcs K funcs ca cg []))"
proof (induction funcs arbitrary: ca cg w)
  case Nil
  show ?case by simp
next
  case (Cons f funcs)
  show ?case
  proof (cases "CodeAnalysis_AddFunction K f ca")
    case (Inl e)
    then show ?thesis by simp
  next
    case ca1: (Inr ca1)
    show ?thesis
    proof (cases "CodeAnalysis_Finish K ca1")
      case (Inl e)
      with ca1 show ?thesis by simp
    next
      case (Inr p)
      obtain m ca2 where p: "p = (m, ca2)" by (cases p)
      show ?thesis
      proof (cases "CodeGen_AddFunction K f m cg")
        case (Inl e)
        with ca1 Inr p show ?thesis by simp
      next
        case cg1: (Inr cg1)
        let ?evs = "[CA_AddFunction f, CA_Finish, CG_AddFunction f m]"
        have a: "for_funcs K (f # funcs) ca cg w = for_funcs K funcs ca2 cg1 (w @ ?evs)"
          using ca1 Inr p cg1 by simp
        have b: "for_funcs K (f # funcs) ca cg [] = for_funcs K funcs ca2 cg1 ?evs"
          using ca1 Inr p cg1 by simp
        have c: "for_funcs K funcs ca2 cg1 (w @ ?evs) =
            (fst (for_funcs K funcs ca2 cg1 []), (w @ ?evs) @ snd (for_funcs K funcs ca2 cg1 []))"
          by (rule Cons.IH)
        have d: "for_funcs K funcs ca2 cg1 ?evs =
            (fst (for_funcs K funcs ca2 cg1 []), ?evs @ snd (for_funcs K funcs ca2 cg1 []))"
          by (rule Cons.IH)
        show ?thesis
          by (simp only: a b c d fst_conv snd_conv append_assoc)
      qed
    qed
  qed
qed

lemma for_funcs_Cons_fresh:
  "for_funcs K (f # funcs) ca cg [] =
    (case CodeAnalysis_AddFunction K f ca of
       Inl e \<Rightarrow> (Inl e, [CA_AddFunction f])
     | Inr ca1 \<Rightarrow>
        (case CodeAnalysis_Finish K ca1 of
           Inl e \<Rightarrow> (Inl e, [CA_AddFunction f, CA_Finish])
         | Inr (m, ca2) \<Rightarrow>
            (case CodeGen_AddFunction K f m cg of
               Inl e \<Rightarrow> (Inl e, [CA_AddFunction f, CA_Finish, CG_AddFunction f m])
             | Inr cg1 \<Rightarrow>
                 (fst (for_funcs K funcs ca2 cg1 []),
                  [CA_AddFunction f, CA_Finish, CG_AddFunction f m]
                    @ snd (for_funcs K funcs ca2 cg1 [])))))"
  by (simp split: sum.split prod.split
      add: for_funcs_history [of K funcs _ _ "[CA_AddFunction f, CA_Finish, CG_AddFunction f _]"])

lemma BuildRV64PPAC_history:
  "BuildRV64PPAC K funcs w =
     (fst (BuildRV64PPAC K funcs []), w @ snd (BuildRV64PPAC K funcs []))"
proof -
  obtain r evs where fresh: "for_funcs K funcs (CodeAnalysis_new K) (CodeGen_new K) [] = (r, evs)"
    by (cases "for_funcs K funcs (CodeAnalysis_new K) (CodeGen_new K) []")
  have given: "for_funcs K funcs (CodeAnalysis_new K) (CodeGen_new K) w = (r, w @ evs)"
    using for_funcs_history [of K funcs "CodeAnalysis_new K" "CodeGen_new K" w] fresh by simp
  show ?thesis
    unfolding BuildRV64PPAC_def fresh given
    by (simp split: sum.split prod.split)
qed

lemma emitted_fresh: "emitted K funcs w = snd (BuildRV64PPAC K funcs [])"
  unfolding emitted_def by (subst BuildRV64PPAC_history) simp

lemma outcome_fresh: "fst (BuildRV64PPAC K funcs w) = fst (BuildRV64PPAC K funcs [])"
  by (subst BuildRV64PPAC_history) simp

lemma cg_calls_append: "cg_calls (xs @ ys) = cg_calls xs @ cg_calls ys"
  by (induction xs rule: cg_calls.induct) simp_all

lemma for_funcs_Cons_success:
  assumes "for_funcs K (f # funcs) ca cg [] = (Inr (ca', cg'), evs)"
  obtains ca1 m ca2 cg1 rest where
    "CodeAnalysis_AddFunction K f ca = Inr ca1"
    "CodeAnalysis_Finish K ca1 = Inr (m, ca2)"
    "CodeGen_AddFunction K f m cg = Inr cg1"
    "for_funcs K funcs ca2 cg1 [] = (Inr (ca', cg'), rest)"
    "evs = [CA_AddFunction f, CA_Finish, CG_AddFunction f m] @ rest"
proof (cases "CodeAnalysis_AddFunction K f ca")
  case (Inl e)
  with assms show ?thesis by (simp add: for_funcs_Cons_fresh)
next
  case ca1: (Inr ca1)
  show ?thesis
  proof (cases "CodeAnalysis_Finish K ca1")
    case (Inl e)
    with ca1 assms show ?thesis by (simp add: for_funcs_Cons_fresh)
  next
    case (Inr p)
    obtain m ca2 where p: "p = (m, ca2)" by (cases p)
    show ?thesis
    proof (cases "CodeGen_AddFunction K f m cg")
      case (Inl e)
      with ca1 Inr p assms show ?thesis by (simp add: for_funcs_Cons_fresh)
    next
      case cg1: (Inr cg1)
      obtain r rest where rest: "for_funcs K funcs ca2 cg1 [] = (r, rest)"
        by (cases "for_funcs K funcs ca2 cg1 []")
      from assms ca1 Inr p cg1 rest
      have "r = Inr (ca', cg')" "evs = [CA_AddFunction f, CA_Finish, CG_AddFunction f m] @ rest"
        unfolding for_funcs_Cons_fresh by simp_all
      with that ca1 Inr p cg1 rest show ?thesis by simp
    qed
  qed
qed

lemma for_funcs_success_shape:
  "for_funcs K funcs ca cg [] = (Inr (ca', cg'), evs) \<Longrightarrow>
     map shape evs = concat (map turn funcs) \<and> map fst (cg_calls evs) = funcs"
proof (induction funcs arbitrary: ca cg evs)
  case Nil
  then show ?case by simp
next
  case (Cons f funcs)
  from Cons.prems obtain ca2 cg1 m rest where
    rest: "for_funcs K funcs ca2 cg1 [] = (Inr (ca', cg'), rest)"
    and evs: "evs = [CA_AddFunction f, CA_Finish, CG_AddFunction f m] @ rest"
    by (rule for_funcs_Cons_success)
  from Cons.IH [OF rest] show ?case
    by (simp add: evs shape_def turn_def)
qed

lemma for_funcs_success_finished:
  "for_funcs K funcs ca cg [] = (Inr (ca', cg'), evs) \<Longrightarrow>
     finished_from K (cg_calls evs) cg = finished_from K [] cg'"
proof (induction funcs arbitrary: ca cg evs)
  case Nil
  then show ?case by simp
next
  case (Cons f funcs)
  from Cons.prems obtain ca2 cg1 m rest where
    cg1: "CodeGen_AddFunction K f m cg = Inr cg1"
    and rest: "for_funcs K funcs ca2 cg1 [] = (Inr (ca', cg'), rest)"
    and evs: "evs = [CA_AddFunction f, CA_Finish, CG_AddFunction f m] @ rest"
    by (rule for_funcs_Cons_success)
  from Cons.IH [OF rest] show ?case
    by (simp add: evs cg1)
qed

lemma for_funcs_snapshot:
  "for_funcs K funcs ca cg [] = (r, evs) \<Longrightarrow> i < length (cg_calls evs) \<Longrightarrow>
     i < length funcs \<and> fst (cg_calls evs ! i) = funcs ! i \<and>
     snapshot_from K (take (Suc i) funcs) ca = Some (snd (cg_calls evs ! i))"
proof (induction funcs arbitrary: ca cg r evs i)
  case Nil
  then show ?case by simp
next
  case (Cons f funcs)
  show ?case
  proof (cases "CodeAnalysis_AddFunction K f ca")
    case (Inl e)
    with Cons.prems show ?thesis by auto
  next
    case ca1: (Inr ca1)
    show ?thesis
    proof (cases "CodeAnalysis_Finish K ca1")
      case (Inl e)
      with ca1 Cons.prems show ?thesis by auto
    next
      case (Inr p)
      obtain m ca2 where p: "p = (m, ca2)" by (cases p)
      show ?thesis
      proof (cases "CodeGen_AddFunction K f m cg")
        case (Inl e)
        with ca1 Inr p Cons.prems show ?thesis by (cases i) auto
      next
        case cg1: (Inr cg1)
        obtain r' rest where rest: "for_funcs K funcs ca2 cg1 [] = (r', rest)"
          by (cases "for_funcs K funcs ca2 cg1 []")
        have evs: "evs = [CA_AddFunction f, CA_Finish, CG_AddFunction f m] @ rest"
          using Cons.prems(1) ca1 Inr p cg1 rest unfolding for_funcs_Cons_fresh by simp
        show ?thesis
        proof (cases i)
          case 0
          then show ?thesis using ca1 Inr p evs by simp
        next
          case (Suc j)
          with Cons.prems(2) evs have j: "j < length (cg_calls rest)" by simp
          from Cons.IH [OF rest j] have "j < length funcs" by simp
          then have "take (Suc j) funcs \<noteq> []" by (cases funcs) auto
          with Cons.IH [OF rest j] show ?thesis
            using Suc ca1 Inr p evs by simp
        qed
      qed
    qed
  qed
qed

lemma BuildRV64PPAC_fresh_cases:
  "BuildRV64PPAC K funcs [] =
    (case for_funcs K funcs (CodeAnalysis_new K) (CodeGen_new K) [] of
       (Inl e, evs) \<Rightarrow> (Inl e, evs)
     | (Inr (ca, cg), evs) \<Rightarrow>
        (case CodeGen_Finish K cg of
           Inl e \<Rightarrow> (Inl e, evs @ [CG_Finish])
         | Inr (code, cg') \<Rightarrow> (Inr code, evs @ [CG_Finish, LOG_WARNING advisory])))"
  by (simp add: BuildRV64PPAC_def)

lemma no_advisory_in_loop:
  "LOG_WARNING s \<notin> set (snd (for_funcs K funcs ca cg []))"
proof (induction funcs arbitrary: ca cg)
  case Nil
  show ?case by simp
next
  case (Cons f funcs)
  show ?case
    unfolding for_funcs_Cons_fresh
    by (simp add: Cons.IH split: sum.split prod.split)
qed

lemma BuildRV64PPAC_success:
  assumes "fst (BuildRV64PPAC K funcs w) = Inr code"
  obtains ca cg cg' evs where
    "for_funcs K funcs (CodeAnalysis_new K) (CodeGen_new K) [] = (Inr (ca, cg), evs)"
    "CodeGen_Finish K cg = Inr (code, cg')"
    "emitted K funcs w = evs @ [CG_Finish, LOG_WARNING advisory]"
proof -
  obtain r evs where
    loop: "for_funcs K funcs (CodeAnalysis_new K) (CodeGen_new K) [] = (r, evs)"
    by (cases "for_funcs K funcs (CodeAnalysis_new K) (CodeGen_new K) []")
  from assms have ok: "fst (BuildRV64PPAC K funcs []) = Inr code"
    using outcome_fresh [of K funcs w] by simp
  show thesis
  proof (cases r)
    case (Inl e)
    with ok loop show ?thesis by (simp add: BuildRV64PPAC_fresh_cases)
  next
    case (Inr p)
    obtain ca cg where p: "p = (ca, cg)" by (cases p)
    show ?thesis
    proof (cases "CodeGen_Finish K cg")
      case (Inl e)
      with ok loop Inr p show ?thesis by (simp add: BuildRV64PPAC_fresh_cases)
    next
      case fin: (Inr q)
      obtain code' cg' where q: "q = (code', cg')" by (cases q)
      from ok loop Inr p fin q have "code' = code"
        by (simp add: BuildRV64PPAC_fresh_cases)
      moreover from loop Inr p fin q
      have "emitted K funcs w = evs @ [CG_Finish, LOG_WARNING advisory]"
        by (simp add: emitted_fresh BuildRV64PPAC_fresh_cases)
      ultimately show ?thesis using that loop Inr p fin q by simp
    qed
  qed
qed

lemma BuildRV64PPAC_failure:
  assumes "fst (BuildRV64PPAC K funcs w) = Inl e"
  shows "LOG_WARNING s \<notin> set (emitted K funcs w)"
proof -
  obtain r evs where
    loop: "for_funcs K funcs (CodeAnalysis_new K) (CodeGen_new K) [] = (r, evs)"
    by (cases "for_funcs K funcs (CodeAnalysis_new K) (CodeGen_new K) []")
  from no_advisory_in_loop [of s K funcs "CodeAnalysis_new K" "CodeGen_new K"] loop
  have quiet: "LOG_WARNING s \<notin> set evs" by simp
  from assms have bad: "fst (BuildRV64PPAC K funcs []) = Inl e"
    using outcome_fresh [of K funcs w] by simp
  show ?thesis
  proof (cases r)
    case (Inl e')
    with loop quiet show ?thesis by (simp add: emitted_fresh BuildRV64PPAC_fresh_cases)
  next
    case (Inr p)
    obtain ca cg where p: "p = (ca, cg)" by (cases p)
    show ?thesis
    proof (cases "CodeGen_Finish K cg")
      case (Inl e')
      with loop quiet Inr p show ?thesis by (simp add: emitted_fresh BuildRV64PPAC_fresh_cases)
    next
      case fin: (Inr q)
      obtain code' cg' where q: "q = (code', cg')" by (cases q)
      from bad loop Inr p fin q show ?thesis by (simp add: BuildRV64PPAC_fresh_cases)
    qed
  qed
qed

lemma emitted_cases:
  "emitted K funcs w =
    (case for_funcs K funcs (CodeAnalysis_new K) (CodeGen_new K) [] of
       (Inl e, evs) \<Rightarrow> evs
     | (Inr (ca, cg), evs) \<Rightarrow>
        (case CodeGen_Finish K cg of
           Inl e \<Rightarrow> evs @ [CG_Finish]
         | Inr (code, cg') \<Rightarrow> evs @ [CG_Finish, LOG_WARNING advisory]))"
  by (simp add: emitted_fresh BuildRV64PPAC_fresh_cases split: sum.split prod.split)

lemma cg_calls_emitted:
  "cg_calls (emitted K funcs w) =
     cg_calls (snd (for_funcs K funcs (CodeAnalysis_new K) (CodeGen_new K) []))"
  by (simp add: emitted_cases cg_calls_append split: sum.split prod.split)

lemma for_funcs_append:
  "for_funcs K (funcs @ rest) ca cg w =
    (case for_funcs K funcs ca cg w of
       (Inl e, w1) \<Rightarrow> (Inl e, w1)
     | (Inr (ca', cg'), w1) \<Rightarrow> for_funcs K rest ca' cg' w1)"
  by (induction funcs arbitrary: ca cg w) (simp_all split: sum.split prod.split)

lemma count_list_shape:
  "ev = CA_Finish \<or> ev = CG_Finish \<Longrightarrow>
     count_list (map shape xs) (shape ev) = count_list xs ev"
proof (induction xs)
  case Nil
  show ?case by simp
next
  case (Cons x xs)
  then show ?case by (cases x) (auto simp: shape_def)
qed

lemma spec_finished_from:
  "finished_from (with_spec_CodeGen translate K) calls buf = Some code \<Longrightarrow>
     code = buf @ concat (map (text_of translate) calls) \<and>
     (\<forall>c \<in> set calls. translate (fst c) (snd c) = Inr (text_of translate c))"
proof (induction calls arbitrary: buf)
  case Nil
  then show ?case
    by (simp add: with_spec_CodeGen_def spec_CodeGen_Finish_def)
next
  case (Cons c calls)
  obtain f m where c: "c = (f, m)" by (cases c)
  show ?case
  proof (cases "translate f m")
    case (Inl e)
    with Cons.prems c show ?thesis
      by (simp add: with_spec_CodeGen_def spec_CodeGen_AddFunction_def)
  next
    case (Inr t)
    with Cons.prems c
    have "finished_from (with_spec_CodeGen translate K) calls (buf @ t) = Some code"
      by (simp add: with_spec_CodeGen_def spec_CodeGen_AddFunction_def)
    from Cons.IH [OF this] Inr c show ?thesis
      by (simp add: text_of_def)
  qed
qed

lemma concat_map_two_neighbours:
  assumes "Suc j < length xs"
  shows "concat (map g xs) =
     concat (map g (take j xs)) @ g (xs ! j) @ g (xs ! Suc j) @ concat (map g (drop (Suc (Suc j)) xs))"
proof -
  from assms have "xs = take j xs @ xs ! j # xs ! Suc j # drop (Suc (Suc j)) xs"
    by (simp add: Cons_nth_drop_Suc Suc_lessD)
  then have "concat (map g xs) =
      concat (map g (take j xs @ xs ! j # xs ! Suc j # drop (Suc (Suc j)) xs))"
    by simp
  then show ?thesis by simp
qed

lemma replay_for_funcs:
  "for_funcs K funcs ca cg [] = (r, evs) \<Longrightarrow>
     replay K (evs @ rest) ca cg maps texts =
       (case r of
          Inl e \<Rightarrow> Inl e
        | Inr (ca', cg') \<Rightarrow> replay K rest ca' cg' (maps @ map snd (cg_calls evs)) texts)"
proof (induction funcs arbitrary: ca cg r evs maps)
  case Nil
  then show ?case by auto
next
  case (Cons f funcs)
  show ?case
  proof (cases "CodeAnalysis_AddFunction K f ca")
    case (Inl e)
    with Cons.prems show ?thesis by auto
  next
    case ca1: (Inr ca1)
    show ?thesis
    proof (cases "CodeAnalysis_Finish K ca1")
      case (Inl e)
      with ca1 Cons.prems show ?thesis by auto
    next
      case (Inr p)
      obtain m ca2 where p: "p = (m, ca2)" by (cases p)
      show ?thesis
      proof (cases "CodeGen_AddFunction K f m cg")
        case (Inl e)
        with ca1 Inr p Cons.prems show ?thesis by auto
      next
        case cg1: (Inr cg1)
        obtain r' tl where tl: "for_funcs K funcs ca2 cg1 [] = (r', tl)"
          by (cases "for_funcs K funcs ca2 cg1 []")
        from Cons.prems ca1 Inr p cg1 tl
        have r: "r = r'" and evs: "evs = [CA_AddFunction f, CA_Finish, CG_AddFunction f m] @ tl"
          unfolding for_funcs_Cons_fresh by simp_all
        from Cons.IH [OF tl, of "maps @ [m]"] show ?thesis
          by (simp add: r evs ca1 Inr p cg1 split: sum.split prod.split)
      qed
    qed
  qed
qed

lemma performed_emitted:
  "performed K (emitted K funcs w) =
    (case fst (BuildRV64PPAC K funcs w) of
       Inl e \<Rightarrow> Inl e
     | Inr code \<Rightarrow> Inr (map snd (cg_calls (emitted K funcs w)), [code]))"
proof -
  obtain r evs where
    loop: "for_funcs K funcs (CodeAnalysis_new K) (CodeGen_new K) [] = (r, evs)"
    by (cases "for_funcs K funcs (CodeAnalysis_new K) (CodeGen_new K) []")
  note rep = replay_for_funcs [OF loop, of _ "[]" "[]"]
  show ?thesis
  proof (cases r)
    case (Inl e)
    with loop rep [of "[]"] show ?thesis
      unfolding performed_def emitted_fresh outcome_fresh [of K funcs w] BuildRV64PPAC_fresh_cases
      by simp
  next
    case (Inr p)
    obtain ca cg where p: "p = (ca, cg)" by (cases p)
    show ?thesis
    proof (cases "CodeGen_Finish K cg")
      case (Inl e)
      with loop Inr p rep [of "[CG_Finish]"] show ?thesis
        unfolding performed_def emitted_fresh outcome_fresh [of K funcs w] BuildRV64PPAC_fresh_cases
        by simp
    next
      case fin: (Inr q)
      obtain code cg' where q: "q = (code, cg')" by (cases q)
      from loop Inr p fin q rep [of "[CG_Finish, LOG_WARNING advisory]"] show ?thesis
        unfolding performed_def emitted_fresh outcome_fresh [of K funcs w] BuildRV64PPAC_fresh_cases
        by (simp add: cg_calls_append)
    qed
  qed
qed

lemma for_funcs_generator_call:
  "for_funcs K funcs ca cg [] = (r, evs) \<Longrightarrow> i < length (cg_calls evs) \<Longrightarrow>
     \<exists>ca' cg' evs'.
       for_funcs K (take i funcs) ca cg [] = (Inr (ca', cg'), evs') \<and>
       map_sum id snd (fst (for_funcs K (take (Suc i) funcs) ca cg [])) =
         CodeGen_AddFunction K (funcs ! i) (snd (cg_calls evs ! i)) cg'"
proof (induction funcs arbitrary: ca cg r evs i)
  case Nil
  then show ?case by simp
next
  case (Cons f funcs)
  show ?case
  proof (cases "CodeAnalysis_AddFunction K f ca")
    case (Inl e)
    with Cons.prems show ?thesis by auto
  next
    case ca1: (Inr ca1)
    show ?thesis
    proof (cases "CodeAnalysis_Finish K ca1")
      case (Inl e)
      with ca1 Cons.prems show ?thesis by auto
    next
      case (Inr p)
      obtain m ca2 where p: "p = (m, ca2)" by (cases p)
      show ?thesis
      proof (cases "CodeGen_AddFunction K f m cg")
        case (Inl e)
        with ca1 Inr p Cons.prems show ?thesis by (cases i) auto
      next
        case cg1: (Inr cg1)
        obtain r' tl where tl: "for_funcs K funcs ca2 cg1 [] = (r', tl)"
          by (cases "for_funcs K funcs ca2 cg1 []")
        have evs: "evs = [CA_AddFunction f, CA_Finish, CG_AddFunction f m] @ tl"
          using Cons.prems(1) ca1 Inr p cg1 tl unfolding for_funcs_Cons_fresh by simp
        show ?thesis
        proof (cases i)
          case 0
          then show ?thesis using ca1 Inr p cg1 evs by simp
        next
          case (Suc j)
          with Cons.prems(2) evs have j: "j < length (cg_calls tl)" by simp
          from Cons.IH [OF tl j] obtain ca' cg' evs' where
            pre: "for_funcs K (take j funcs) ca2 cg1 [] = (Inr (ca', cg'), evs')"
            and app: "map_sum id snd (fst (for_funcs K (take (Suc j) funcs) ca2 cg1 [])) =
              CodeGen_AddFunction K (funcs ! j) (snd (cg_calls tl ! j)) cg'"
            by blast
          have t1: "take i (f # funcs) = f # take j funcs"
            and t2: "take (Suc i) (f # funcs) = f # take (Suc j) funcs"
            using Suc by simp_all
          have a: "for_funcs K (f # take j funcs) ca cg [] =
              (Inr (ca', cg'), [CA_AddFunction f, CA_Finish, CG_AddFunction f m] @ evs')"
            unfolding for_funcs_Cons_fresh using ca1 Inr p cg1 pre by simp
          have b: "fst (for_funcs K (f # take (Suc j) funcs) ca cg []) =
              fst (for_funcs K (take (Suc j) funcs) ca2 cg1 [])"
            unfolding for_funcs_Cons_fresh using ca1 Inr p cg1 by simp
          have c: "(f # funcs) ! i = funcs ! j" "cg_calls evs ! i = cg_calls tl ! j"
            using Suc evs by simp_all
          show ?thesis
            unfolding t1 t2 c b using a app by blast
        qed
      qed
    qed
  qed
qed

lemmas kernel_defs =
  kernel_K_def spec_collaborators_def
  spec_CodeAnalysis_new_def spec_CodeAnalysis_AddFunction_def spec_CodeAnalysis_Finish_def
  spec_CodeGen_new_def spec_CodeGen_AddFunction_def spec_CodeGen_Finish_def
  kernel_translate_def

lemma run_int_int2:
  "BuildRV64PPAC kernel_K [k_int, k_int2] [] =
    (Inr ''i;j;'',
     [CA_AddFunction k_int, CA_Finish, CG_AddFunction k_int [''A'' \<mapsto> Int32],
      CA_AddFunction k_int2, CA_Finish, CG_AddFunction k_int2 [''A'' \<mapsto> Int32],
      CG_Finish, LOG_WARNING advisory])"
  by (simp add: BuildRV64PPAC_def kernel_defs k_int_def k_int2_def)

lemmas typed_defs =
  typed_K_def spec_collaborators_def
  spec_CodeAnalysis_new_def spec_CodeAnalysis_AddFunction_def spec_CodeAnalysis_Finish_def
  spec_CodeGen_new_def spec_CodeGen_AddFunction_def spec_CodeGen_Finish_def
  typed_translate_def kernel_translate_def

lemma typed_run_int_int2:
  "BuildRV64PPAC typed_K [k_int, k_int2] [] =
    (Inr ''i;j;'',
     [CA_AddFunction k_int, CA_Finish, CG_AddFunction k_int [''A'' \<mapsto> Int32],
      CA_AddFunction k_int2, CA_Finish, CG_AddFunction k_int2 [''A'' \<mapsto> Int32],
      CG_Finish, LOG_WARNING advisory])"
  by (simp add: BuildRV64PPAC_def typed_defs k_int_def k_int2_def)

lemma typed_run_plain_int_float:
  "BuildRV64PPAC typed_K [k_plain, k_int, k_float] [] =
    (Inl InconsistentArgumentType,
     [CA_AddFunction k_plain, CA_Finish, CG_AddFunction k_plain Map.empty,
      CA_AddFunction k_int, CA_Finish, CG_AddFunction k_int [''A'' \<mapsto> Int32],
      CA_AddFunction k_float])"
  by (simp add: BuildRV64PPAC_def typed_defs k_plain_def k_int_def k_float_def)

section \<open>The advisory message\<close>

text \<open>
  C1 as stated asks for the message also when the build fails. Here the analyzer raises
  on the second function, whose argument \<open>A\<close> has another type than in the first, and
  the invocation ends without the message.
\<close>

theorem advisory_missing_when_analyzer_raises:
  "fst (BuildRV64PPAC kernel_K [k_int, k_float] []) = Inl InconsistentArgumentType \<and>
   count_list (emitted kernel_K [k_int, k_float] []) (LOG_WARNING advisory) = 0"
  by (simp add: emitted_def BuildRV64PPAC_def kernel_defs k_int_def k_float_def)

text \<open>
  C1, as the driver has it. The log line is the statement after \<^verbatim>\<open>cg.Finish()\<close>, so
  it is written when, and only when, every call before it returned: an invocation that
  returns text has written the advisory message exactly once, whatever the number of
  functions, and an invocation that a failure unwinds has not written it.
\<close>

theorem advisory_once_iff_build_returns:
  "count_list (emitted K funcs w) (LOG_WARNING advisory) =
     (case fst (BuildRV64PPAC K funcs w) of Inl e \<Rightarrow> 0 | Inr code \<Rightarrow> 1)"
proof (cases "fst (BuildRV64PPAC K funcs w)")
  case (Inl e)
  from BuildRV64PPAC_failure [OF Inl, of advisory] Inl show ?thesis
    by (simp add: count_list_0_iff)
next
  case (Inr code)
  then obtain ca cg evs where
    loop: "for_funcs K funcs (CodeAnalysis_new K) (CodeGen_new K) [] = (Inr (ca, cg), evs)"
    and evs: "emitted K funcs w = evs @ [CG_Finish, LOG_WARNING advisory]"
    by (rule BuildRV64PPAC_success)
  from no_advisory_in_loop [of advisory K funcs "CodeAnalysis_new K" "CodeGen_new K"] loop
  have "count_list evs (LOG_WARNING advisory) = 0" by (simp add: count_list_0_iff)
  with Inr evs show ?thesis by simp
qed

text \<open>The theorem at a build of two functions that returns.\<close>

theorem advisory_once_iff_build_returns_witness:
  "fst (BuildRV64PPAC kernel_K [k_int, k_int2] []) = Inr ''i;j;'' \<and>
   count_list (emitted kernel_K [k_int, k_int2] []) (LOG_WARNING advisory) = 1"
  using advisory_once_iff_build_returns [of kernel_K "[k_int, k_int2]" "[]"]
  by (simp add: run_int_int2)

section \<open>Failures\<close>

text \<open>
  C2. Let the loop have run over the first \<open>i\<close> functions without a failure, leaving
  the instances \<open>ca\<close> and \<open>cg\<close> and the trace \<open>w1\<close>. If then a call raises \<open>e\<close>, be
  it \<^verbatim>\<open>ca.AddFunction\<close>, \<^verbatim>\<open>ca.Finish\<close> or \<^verbatim>\<open>cg.AddFunction\<close> on function \<open>i\<close>, or
  \<^verbatim>\<open>cg.Finish\<close> after the last function, the driver gives that very \<open>e\<close> and no text,
  and the raising call is the last thing it did: no second attempt, no further call, no
  log line.
\<close>

theorem failure_propagates_unchanged:
  assumes "i \<le> length funcs"
    and "for_funcs K (take i funcs) (CodeAnalysis_new K) (CodeGen_new K) w = (Inr (ca, cg), w1)"
  shows
    "(i < length funcs \<and> CodeAnalysis_AddFunction K (funcs ! i) ca = Inl e \<longrightarrow>
        BuildRV64PPAC K funcs w = (Inl e, w1 @ [CA_AddFunction (funcs ! i)])) \<and>
     (i < length funcs \<and> CodeAnalysis_AddFunction K (funcs ! i) ca = Inr ca1 \<and>
      CodeAnalysis_Finish K ca1 = Inl e \<longrightarrow>
        BuildRV64PPAC K funcs w = (Inl e, w1 @ [CA_AddFunction (funcs ! i), CA_Finish])) \<and>
     (i < length funcs \<and> CodeAnalysis_AddFunction K (funcs ! i) ca = Inr ca1 \<and>
      CodeAnalysis_Finish K ca1 = Inr (m, ca2) \<and>
      CodeGen_AddFunction K (funcs ! i) m cg = Inl e \<longrightarrow>
        BuildRV64PPAC K funcs w =
          (Inl e, w1 @ [CA_AddFunction (funcs ! i), CA_Finish, CG_AddFunction (funcs ! i) m])) \<and>
     (i = length funcs \<and> CodeGen_Finish K cg = Inl e \<longrightarrow>
        BuildRV64PPAC K funcs w = (Inl e, w1 @ [CG_Finish]))"
proof -
  have loop: "for_funcs K funcs (CodeAnalysis_new K) (CodeGen_new K) w =
      for_funcs K (drop i funcs) ca cg w1"
    using for_funcs_append [of K "take i funcs" "drop i funcs" "CodeAnalysis_new K" "CodeGen_new K" w]
      assms(2) by simp
  have step: "drop i funcs = funcs ! i # drop (Suc i) funcs" if "i < length funcs"
    using that by (simp add: Cons_nth_drop_Suc)
  show ?thesis
    unfolding BuildRV64PPAC_def loop
    by (auto simp: step)
qed

text \<open>
  The theorem at an analyzer failure (the second function uses \<open>A\<close> at another type)
  and at a generator failure (the second function has no translation).
\<close>

theorem failure_propagates_unchanged_witness:
  "BuildRV64PPAC kernel_K [k_int, k_float] [] =
     (Inl InconsistentArgumentType,
      [CA_AddFunction k_int, CA_Finish, CG_AddFunction k_int [''A'' \<mapsto> Int32],
       CA_AddFunction k_float]) \<and>
   BuildRV64PPAC kernel_K [k_plain, k_opaque] [] =
     (Inl UnsupportedConstruct,
      [CA_AddFunction k_plain, CA_Finish, CG_AddFunction k_plain Map.empty,
       CA_AddFunction k_opaque, CA_Finish, CG_AddFunction k_opaque Map.empty])"
proof -
  have "for_funcs kernel_K (take 1 [k_int, k_float]) (CodeAnalysis_new kernel_K)
      (CodeGen_new kernel_K) [] =
      (Inr ([''A'' \<mapsto> Int32], ''i;''),
       [CA_AddFunction k_int, CA_Finish, CG_AddFunction k_int [''A'' \<mapsto> Int32]])"
    by (simp add: kernel_defs k_int_def)
  from failure_propagates_unchanged [OF _ this, of InconsistentArgumentType]
  have analyzer: "BuildRV64PPAC kernel_K [k_int, k_float] [] =
     (Inl InconsistentArgumentType,
      [CA_AddFunction k_int, CA_Finish, CG_AddFunction k_int [''A'' \<mapsto> Int32],
       CA_AddFunction k_float])"
    by (simp add: kernel_defs k_int_def k_float_def)
  have "for_funcs kernel_K (take 1 [k_plain, k_opaque]) (CodeAnalysis_new kernel_K)
      (CodeGen_new kernel_K) [] =
      (Inr (Map.empty, ''p;''),
       [CA_AddFunction k_plain, CA_Finish, CG_AddFunction k_plain Map.empty])"
    by (simp add: kernel_defs k_plain_def)
  from failure_propagates_unchanged [OF _ this,
      of UnsupportedConstruct Map.empty Map.empty Map.empty]
  have generator: "BuildRV64PPAC kernel_K [k_plain, k_opaque] [] =
     (Inl UnsupportedConstruct,
      [CA_AddFunction k_plain, CA_Finish, CG_AddFunction k_plain Map.empty,
       CA_AddFunction k_opaque, CA_Finish, CG_AddFunction k_opaque Map.empty])"
    by (simp add: kernel_defs k_plain_def k_opaque_def)
  from analyzer generator show ?thesis by simp
qed

section \<open>The map the generator sees\<close>

text \<open>
  C3. Whenever the generator's \<^verbatim>\<open>AddFunction\<close> is called for the \<open>i\<close>-th time in an
  invocation, it is called on function \<open>i\<close> and with the snapshot of the analyzer taken
  right after functions \<open>0..i\<close> were registered. The call is the real one: the loop
  over the first \<open>i\<close> functions has left a generator instance \<open>cg\<close>, and what the
  loop over the first \<open>i + 1\<close> functions leaves as the generator (or raises) is
  \<^verbatim>\<open>AddFunction\<close> of the generator applied to function \<open>i\<close>, that snapshot and \<open>cg\<close>.
  The snapshot depends on the functions \<open>0..i\<close> alone: any other function set that
  starts with the same \<open>i + 1\<close> functions passes the same map at \<open>i\<close>, whatever
  follows them.
\<close>

theorem generator_sees_snapshot_of_prefix:
  assumes "i < length (cg_calls (emitted K funcs w))"
  shows "i < length funcs \<and>
     fst (cg_calls (emitted K funcs w) ! i) = funcs ! i \<and>
     snapshot K (take (Suc i) funcs) = Some (snd (cg_calls (emitted K funcs w) ! i)) \<and>
     (\<exists>ca cg w1.
         for_funcs K (take i funcs) (CodeAnalysis_new K) (CodeGen_new K) w = (Inr (ca, cg), w1) \<and>
         map_sum id snd
           (fst (for_funcs K (take (Suc i) funcs) (CodeAnalysis_new K) (CodeGen_new K) w)) =
           CodeGen_AddFunction K (funcs ! i) (snd (cg_calls (emitted K funcs w) ! i)) cg) \<and>
     (\<forall>funcs' w'. take (Suc i) funcs' = take (Suc i) funcs \<and>
         i < length (cg_calls (emitted K funcs' w')) \<longrightarrow>
         snd (cg_calls (emitted K funcs' w') ! i) = snd (cg_calls (emitted K funcs w) ! i))"
proof -
  have seen: "j < length funcs \<and> fst (cg_calls (emitted K funcs w) ! j) = funcs ! j \<and>
      snapshot K (take (Suc j) funcs) = Some (snd (cg_calls (emitted K funcs w) ! j))"
    if "j < length (cg_calls (emitted K funcs w))" for j funcs w
  proof -
    obtain r evs where
      loop: "for_funcs K funcs (CodeAnalysis_new K) (CodeGen_new K) [] = (r, evs)"
      by (cases "for_funcs K funcs (CodeAnalysis_new K) (CodeGen_new K) []")
    then have calls: "cg_calls (emitted K funcs w) = cg_calls evs"
      by (simp add: cg_calls_emitted)
    from for_funcs_snapshot [OF loop] that show ?thesis
      by (simp add: calls snapshot_def)
  qed
  have same: "snd (cg_calls (emitted K funcs' w') ! i) = snd (cg_calls (emitted K funcs w) ! i)"
    if "take (Suc i) funcs' = take (Suc i) funcs"
      and "i < length (cg_calls (emitted K funcs' w'))" for funcs' w'
    using seen [OF that(2)] seen [OF assms] that(1) by simp
  obtain r evs where
    loop: "for_funcs K funcs (CodeAnalysis_new K) (CodeGen_new K) [] = (r, evs)"
    by (cases "for_funcs K funcs (CodeAnalysis_new K) (CodeGen_new K) []")
  then have calls: "cg_calls (emitted K funcs w) = cg_calls evs"
    by (simp add: cg_calls_emitted)
  with assms have "i < length (cg_calls evs)" by simp
  from for_funcs_generator_call [OF loop this] obtain ca cg evs' where
    pre: "for_funcs K (take i funcs) (CodeAnalysis_new K) (CodeGen_new K) [] = (Inr (ca, cg), evs')"
    and app: "map_sum id snd
        (fst (for_funcs K (take (Suc i) funcs) (CodeAnalysis_new K) (CodeGen_new K) [])) =
        CodeGen_AddFunction K (funcs ! i) (snd (cg_calls evs ! i)) cg"
    by blast
  have "for_funcs K (take i funcs) (CodeAnalysis_new K) (CodeGen_new K) w = (Inr (ca, cg), w @ evs')"
    using for_funcs_history [of K "take i funcs" "CodeAnalysis_new K" "CodeGen_new K" w] pre
    by simp
  moreover have "fst (for_funcs K (take (Suc i) funcs) (CodeAnalysis_new K) (CodeGen_new K) w) =
      fst (for_funcs K (take (Suc i) funcs) (CodeAnalysis_new K) (CodeGen_new K) [])"
    using for_funcs_history [of K "take (Suc i) funcs" "CodeAnalysis_new K" "CodeGen_new K" w]
    by simp
  ultimately have real: "\<exists>ca cg w1.
      for_funcs K (take i funcs) (CodeAnalysis_new K) (CodeGen_new K) w = (Inr (ca, cg), w1) \<and>
      map_sum id snd
        (fst (for_funcs K (take (Suc i) funcs) (CodeAnalysis_new K) (CodeGen_new K) w)) =
        CodeGen_AddFunction K (funcs ! i) (snd (cg_calls (emitted K funcs w) ! i)) cg"
    using app calls by auto
  from seen [OF assms] real same show ?thesis by blast
qed

text \<open>
  The theorem at index 1 of a set whose third function makes the analyzer raise, with a
  generator that reads the map: the second function was translated with the map of the
  first two, and would not have been with the empty map.
\<close>

theorem generator_sees_snapshot_of_prefix_witness:
  "1 < length (cg_calls (emitted typed_K [k_plain, k_int, k_float] [])) \<and>
   cg_calls (emitted typed_K [k_plain, k_int, k_float] []) ! 1 = (k_int, [''A'' \<mapsto> Int32]) \<and>
   snapshot typed_K [k_plain, k_int] = Some [''A'' \<mapsto> Int32] \<and>
   for_funcs typed_K [k_plain] (CodeAnalysis_new typed_K) (CodeGen_new typed_K) [] =
     (Inr (Map.empty, ''p;''),
      [CA_AddFunction k_plain, CA_Finish, CG_AddFunction k_plain Map.empty]) \<and>
   map_sum id snd
     (fst (for_funcs typed_K [k_plain, k_int] (CodeAnalysis_new typed_K) (CodeGen_new typed_K) [])) =
     CodeGen_AddFunction typed_K k_int [''A'' \<mapsto> Int32] ''p;'' \<and>
   CodeGen_AddFunction typed_K k_int [''A'' \<mapsto> Int32] ''p;'' = Inr ''p;i;'' \<and>
   CodeGen_AddFunction typed_K k_int Map.empty ''p;'' = Inl UnsupportedConstruct"
proof -
  have calls: "cg_calls (emitted typed_K [k_plain, k_int, k_float] []) =
      [(k_plain, Map.empty), (k_int, [''A'' \<mapsto> Int32])]"
    by (simp add: emitted_def typed_run_plain_int_float)
  then have reached: "1 < length (cg_calls (emitted typed_K [k_plain, k_int, k_float] []))"
    by simp
  have pre: "for_funcs typed_K [k_plain] (CodeAnalysis_new typed_K) (CodeGen_new typed_K) [] =
     (Inr (Map.empty, ''p;''),
      [CA_AddFunction k_plain, CA_Finish, CG_AddFunction k_plain Map.empty])"
    by (simp add: typed_defs k_plain_def)
  have gen: "CodeGen_AddFunction typed_K k_int [''A'' \<mapsto> Int32] ''p;'' = Inr ''p;i;''"
    "CodeGen_AddFunction typed_K k_int Map.empty ''p;'' = Inl UnsupportedConstruct"
    by (simp_all add: typed_defs k_int_def)
  from generator_sees_snapshot_of_prefix [OF reached] calls pre gen show ?thesis
    by simp
qed

section \<open>The order of the text\<close>

text \<open>
  C4, for the generator as the specification describes it and any analyzer. When the
  build returns text, the generator was called once per function, in the order of the
  function set, each call appended the translation of its function, and the text
  returned is these translations one after the other: the text of function \<open>j + 1\<close>
  starts where the text of function \<open>j\<close> ends, after the texts of all functions before
  and before the texts of all functions after.
\<close>

theorem text_in_order_of_functions:
  fixes translate :: "'f \<Rightarrow> 'm \<Rightarrow> 'e + string"
    and K :: "('f, 'm, 'ca, 'cg, 'e) collaborators"
  defines "calls funcs w \<equiv> cg_calls (emitted (with_spec_CodeGen translate K) funcs w)"
  assumes "fst (BuildRV64PPAC (with_spec_CodeGen translate K) funcs w) = Inr code"
  shows "map fst (calls funcs w) = funcs \<and>
     code = concat (map (text_of translate) (calls funcs w)) \<and>
     (\<forall>i < length funcs.
        translate (funcs ! i) (snd (calls funcs w ! i)) = Inr (text_of translate (calls funcs w ! i))) \<and>
     (\<forall>j. Suc j < length funcs \<longrightarrow>
        code = concat (map (text_of translate) (take j (calls funcs w)))
          @ text_of translate (calls funcs w ! j) @ text_of translate (calls funcs w ! Suc j)
          @ concat (map (text_of translate) (drop (Suc (Suc j)) (calls funcs w))))"
proof -
  let ?K = "with_spec_CodeGen translate K"
  let ?calls = "cg_calls (emitted ?K funcs w)"
  from assms(2) obtain ca cg cg' evs where
    loop: "for_funcs ?K funcs (CodeAnalysis_new ?K) (CodeGen_new ?K) [] = (Inr (ca, cg), evs)"
    and fin: "CodeGen_Finish ?K cg = Inr (code, cg')"
    and evs: "emitted ?K funcs w = evs @ [CG_Finish, LOG_WARNING advisory]"
    by (rule BuildRV64PPAC_success)
  have calls_evs: "?calls = cg_calls evs"
    by (simp add: evs cg_calls_append)
  from for_funcs_success_shape [OF loop]
  have fs: "map fst ?calls = funcs" by (simp add: calls_evs)
  then have len: "length ?calls = length funcs"
    by (metis length_map)
  have new: "CodeGen_new ?K = spec_CodeGen_new"
    by (simp add: with_spec_CodeGen_def)
  from for_funcs_success_finished [OF loop] fin
  have "finished_from ?K ?calls spec_CodeGen_new = Some code"
    unfolding calls_evs new by simp
  from spec_finished_from [OF this]
  have code: "code = concat (map (text_of translate) ?calls)"
    and each: "\<forall>c \<in> set ?calls. translate (fst c) (snd c) = Inr (text_of translate c)"
    by (simp_all add: spec_CodeGen_new_def)
  have "translate (funcs ! i) (snd (?calls ! i)) = Inr (text_of translate (?calls ! i))"
    if "i < length funcs" for i
  proof -
    from that len have "?calls ! i \<in> set ?calls" by simp
    moreover from that fs have "fst (?calls ! i) = funcs ! i"
      by (metis len nth_map)
    ultimately show ?thesis using each by metis
  qed
  moreover have "code = concat (map (text_of translate) (take j ?calls))
      @ text_of translate (?calls ! j) @ text_of translate (?calls ! Suc j)
      @ concat (map (text_of translate) (drop (Suc (Suc j)) ?calls))"
    if "Suc j < length funcs" for j
    using that len code concat_map_two_neighbours [of j ?calls "text_of translate"] by simp
  ultimately show ?thesis
    using fs code unfolding calls_def by blast
qed

text \<open>The theorem at two functions that share the argument \<open>A\<close> at the same type.\<close>

theorem text_in_order_of_functions_witness:
  "fst (BuildRV64PPAC (with_spec_CodeGen kernel_translate kernel_K) [k_int, k_int2] []) =
     Inr ''i;j;'' \<and>
   text_of kernel_translate
     (cg_calls (emitted (with_spec_CodeGen kernel_translate kernel_K) [k_int, k_int2] []) ! 0) =
     ''i;'' \<and>
   text_of kernel_translate
     (cg_calls (emitted (with_spec_CodeGen kernel_translate kernel_K) [k_int, k_int2] []) ! 1) =
     ''j;'' \<and>
   ''i;j;'' = [] @ ''i;'' @ ''j;'' @ []"
proof -
  let ?K = "with_spec_CodeGen kernel_translate kernel_K"
  have run: "BuildRV64PPAC ?K [k_int, k_int2] [] =
    (Inr ''i;j;'',
     [CA_AddFunction k_int, CA_Finish, CG_AddFunction k_int [''A'' \<mapsto> Int32],
      CA_AddFunction k_int2, CA_Finish, CG_AddFunction k_int2 [''A'' \<mapsto> Int32],
      CG_Finish, LOG_WARNING advisory])"
    by (simp add: BuildRV64PPAC_def with_spec_CodeGen_def kernel_defs k_int_def k_int2_def)
  then have ok: "fst (BuildRV64PPAC ?K [k_int, k_int2] []) = Inr ''i;j;''"
    by simp
  have calls: "cg_calls (emitted ?K [k_int, k_int2] []) =
      [(k_int, [''A'' \<mapsto> Int32]), (k_int2, [''A'' \<mapsto> Int32])]"
    by (simp add: emitted_def run)
  from text_in_order_of_functions [OF ok] ok calls show ?thesis
    by (simp add: text_of_def kernel_translate_def k_int_def k_int2_def)
qed

section \<open>The empty function set, with the generator of the specification\<close>

text \<open>
  C5, for the generator as the specification describes it and any analyzer. On the empty
  function set the build returns the empty text; nothing fails, and the advisory message
  is written.
\<close>

theorem empty_set_gives_empty_text:
  "BuildRV64PPAC (with_spec_CodeGen translate K) [] w =
     (Inr [], w @ [CG_Finish, LOG_WARNING advisory])"
  by (simp add: BuildRV64PPAC_def with_spec_CodeGen_def spec_CodeGen_new_def
      spec_CodeGen_Finish_def)

section \<open>What is returned\<close>

text \<open>
  C7. When the build returns \<open>code\<close>, the generator was given exactly the functions of
  the set, in order, and \<open>code\<close> is the text that its \<^verbatim>\<open>Finish\<close> returns after these
  calls. The call to \<^verbatim>\<open>Finish\<close> and the log line are the last two events, in this
  order, after the three calls per function: the message is written once the text is in
  hand and is no part of it.
\<close>

theorem returned_text_is_generator_Finish:
  assumes "fst (BuildRV64PPAC K funcs w) = Inr code"
  shows "map fst (cg_calls (emitted K funcs w)) = funcs \<and>
     finished K (cg_calls (emitted K funcs w)) = Some code \<and>
     drop (3 * length funcs) (emitted K funcs w) = [CG_Finish, LOG_WARNING advisory]"
proof -
  from assms obtain ca cg cg' evs where
    loop: "for_funcs K funcs (CodeAnalysis_new K) (CodeGen_new K) [] = (Inr (ca, cg), evs)"
    and fin: "CodeGen_Finish K cg = Inr (code, cg')"
    and evs: "emitted K funcs w = evs @ [CG_Finish, LOG_WARNING advisory]"
    by (rule BuildRV64PPAC_success)
  from for_funcs_success_shape [OF loop]
  have shp: "map shape evs = concat (map turn funcs)" and fs: "map fst (cg_calls evs) = funcs"
    by simp_all
  have "length (map shape evs) = 3 * length funcs"
    unfolding shp by (induction funcs) (simp_all add: turn_def)
  then have len: "length evs = 3 * length funcs" by simp
  from for_funcs_success_finished [OF loop] fin
  have "finished K (cg_calls evs) = Some code"
    by (simp add: finished_def)
  with fs len show ?thesis
    by (simp add: evs cg_calls_append)
qed

text \<open>The theorem at a build of two functions.\<close>

theorem returned_text_is_generator_Finish_witness:
  "fst (BuildRV64PPAC kernel_K [k_int, k_int2] []) = Inr ''i;j;'' \<and>
   finished kernel_K [(k_int, [''A'' \<mapsto> Int32]), (k_int2, [''A'' \<mapsto> Int32])] = Some ''i;j;'' \<and>
   drop 6 (emitted kernel_K [k_int, k_int2] []) = [CG_Finish, LOG_WARNING advisory]"
proof -
  have ok: "fst (BuildRV64PPAC kernel_K [k_int, k_int2] []) = Inr ''i;j;''"
    by (simp add: run_int_int2)
  have calls: "cg_calls (emitted kernel_K [k_int, k_int2] []) =
      [(k_int, [''A'' \<mapsto> Int32]), (k_int2, [''A'' \<mapsto> Int32])]"
    by (simp add: emitted_def run_int_int2)
  from returned_text_is_generator_Finish [OF ok] ok calls show ?thesis
    by simp
qed

section \<open>A single function without arguments\<close>

text \<open>
  C8 as stated promises success for every single function without arguments. A function
  without arguments that the generator cannot translate makes the build fail with the
  generator's failure.
\<close>

theorem single_function_stops_at_unsupported_construct:
  "fst k_opaque = [] \<and>
   fst (BuildRV64PPAC kernel_K [k_opaque] []) = Inl UnsupportedConstruct"
  by (simp add: BuildRV64PPAC_def kernel_defs k_opaque_def)

text \<open>
  C8, as the driver has it with the collaborators of the specification. For a single
  function that references no argument the analyzer raises nothing and the generator is
  given the empty map; the outcome of the build is the outcome of translating the
  function with the empty map. If the generator translates it, the build returns exactly
  that translation; if not, the generator's failure is the outcome.
\<close>

theorem single_function_without_arguments:
  assumes "arg_types f = []"
  shows "BuildRV64PPAC (spec_collaborators arg_types compatible translate) [f] w =
     (translate f Map.empty,
      w @ [CA_AddFunction f, CA_Finish, CG_AddFunction f Map.empty]
        @ (case translate f Map.empty of
             Inl e \<Rightarrow> []
           | Inr text \<Rightarrow> [CG_Finish, LOG_WARNING advisory]))"
  using assms
  by (simp add: BuildRV64PPAC_def spec_collaborators_def spec_CodeAnalysis_new_def
      spec_CodeAnalysis_AddFunction_def spec_CodeAnalysis_Finish_def spec_CodeGen_new_def
      spec_CodeGen_AddFunction_def spec_CodeGen_Finish_def split: sum.split)

text \<open>The theorem at a function without arguments that has a translation.\<close>

theorem single_function_without_arguments_witness:
  "fst k_plain = [] \<and>
   BuildRV64PPAC kernel_K [k_plain] [] =
     (Inr ''p;'',
      [CA_AddFunction k_plain, CA_Finish, CG_AddFunction k_plain Map.empty,
       CG_Finish, LOG_WARNING advisory])"
proof -
  have none: "fst k_plain = []" by (simp add: k_plain_def)
  from single_function_without_arguments [of fst k_plain "(=)" kernel_translate "[]", OF none]
  show ?thesis
    by (simp add: none kernel_K_def) (simp add: kernel_translate_def k_plain_def)
qed

section \<open>The empty function set\<close>

text \<open>
  C9. For the empty function set the driver calls neither \<^verbatim>\<open>AddFunction\<close> nor
  \<^verbatim>\<open>Finish\<close> of the analyzer, nor \<^verbatim>\<open>AddFunction\<close> of the generator: the one call it
  makes is \<^verbatim>\<open>Finish\<close> on the generator as its constructor left it, and what that call
  gives (its text, or its failure) is what the driver gives.
\<close>

theorem empty_set_calls_only_generator_Finish:
  "filter is_call (emitted K [] w) = [CG_Finish] \<and>
   fst (BuildRV64PPAC K [] w) = map_sum id fst (CodeGen_Finish K (CodeGen_new K))"
  by (simp add: emitted_def BuildRV64PPAC_def split: sum.split prod.split)

section \<open>The order of the calls\<close>

text \<open>
  C10. The events of an invocation are the calls it made: replayed one by one on
  instances as the constructors leave them, they raise what the driver raised, or, when
  the driver returns, they all succeed, the maps returned by the analyzer's \<^verbatim>\<open>Finish\<close>
  calls are the maps given to the generator, and the one text returned by the
  generator's \<^verbatim>\<open>Finish\<close> is the text of the driver. When the build returns, these
  events are, for each function in order, \<^verbatim>\<open>ca.AddFunction\<close>, \<^verbatim>\<open>ca.Finish\<close>,
  \<^verbatim>\<open>cg.AddFunction\<close>, and after the last function \<^verbatim>\<open>cg.Finish\<close> and the log line.
  Hence \<^verbatim>\<open>ca.Finish\<close> is called as many times as there are functions, each time right
  after a registration and before the next, never after the loop, and \<^verbatim>\<open>cg.Finish\<close>
  is called once, after everything else.
\<close>

theorem calls_in_loop_order:
  "performed K (emitted K funcs w) =
     (case fst (BuildRV64PPAC K funcs w) of
        Inl e \<Rightarrow> Inl e
      | Inr code \<Rightarrow> Inr (map snd (cg_calls (emitted K funcs w)), [code])) \<and>
   (fst (BuildRV64PPAC K funcs w) = Inr code \<longrightarrow>
      map shape (emitted K funcs w) =
        concat (map turn funcs) @ [CG_Finish, LOG_WARNING advisory] \<and>
      count_list (emitted K funcs w) CA_Finish = length funcs \<and>
      count_list (emitted K funcs w) CG_Finish = 1)"
proof (intro conjI impI)
  show "performed K (emitted K funcs w) =
     (case fst (BuildRV64PPAC K funcs w) of
        Inl e \<Rightarrow> Inl e
      | Inr code \<Rightarrow> Inr (map snd (cg_calls (emitted K funcs w)), [code]))"
    by (rule performed_emitted)
next
  assume ok: "fst (BuildRV64PPAC K funcs w) = Inr code"
  then obtain ca cg evs where
    loop: "for_funcs K funcs (CodeAnalysis_new K) (CodeGen_new K) [] = (Inr (ca, cg), evs)"
    and evs: "emitted K funcs w = evs @ [CG_Finish, LOG_WARNING advisory]"
    by (rule BuildRV64PPAC_success)
  from for_funcs_success_shape [OF loop]
  have shp: "map shape evs = concat (map turn funcs)" by simp
  have "count_list (concat (map turn funcs)) CA_Finish = length funcs"
    by (induction funcs) (simp_all add: turn_def)
  with count_list_shape [of CA_Finish evs] shp
  have a: "count_list evs CA_Finish = length funcs" by (simp add: shape_def)
  have "count_list (concat (map turn funcs)) CG_Finish = 0"
    by (induction funcs) (simp_all add: turn_def)
  with count_list_shape [of CG_Finish evs] shp
  have b: "count_list evs CG_Finish = 0" by (simp add: shape_def)
  from shp show "map shape (emitted K funcs w) =
      concat (map turn funcs) @ [CG_Finish, LOG_WARNING advisory]"
    by (simp add: evs shape_def)
  from a show "count_list (emitted K funcs w) CA_Finish = length funcs"
    by (simp add: evs)
  from b show "count_list (emitted K funcs w) CG_Finish = 1"
    by (simp add: evs)
qed

text \<open>The theorem at a build of two functions, with a generator that reads the map.\<close>

theorem calls_in_loop_order_witness:
  "fst (BuildRV64PPAC typed_K [k_int, k_int2] []) = Inr ''i;j;'' \<and>
   performed typed_K (emitted typed_K [k_int, k_int2] []) =
     Inr ([[''A'' \<mapsto> Int32], [''A'' \<mapsto> Int32]], [''i;j;'']) \<and>
   map shape (emitted typed_K [k_int, k_int2] []) =
     [CA_AddFunction k_int, CA_Finish, CG_AddFunction k_int (),
      CA_AddFunction k_int2, CA_Finish, CG_AddFunction k_int2 (),
      CG_Finish, LOG_WARNING advisory] \<and>
   count_list (emitted typed_K [k_int, k_int2] []) CA_Finish = 2 \<and>
   count_list (emitted typed_K [k_int, k_int2] []) CG_Finish = 1"
proof -
  have ok: "fst (BuildRV64PPAC typed_K [k_int, k_int2] []) = Inr ''i;j;''"
    by (simp add: typed_run_int_int2)
  have calls: "cg_calls (emitted typed_K [k_int, k_int2] []) =
      [(k_int, [''A'' \<mapsto> Int32]), (k_int2, [''A'' \<mapsto> Int32])]"
    by (simp add: emitted_def typed_run_int_int2)
  from calls_in_loop_order [of typed_K "[k_int, k_int2]" "[]" "''i;j;''"] ok calls show ?thesis
    by (simp add: turn_def)
qed

end
